theory Spec2Isabelle
  imports Main
begin

section \<open>Italian AIC codes: the module stdnum/it/aic.py\<close>

text \<open>
  The module works on Python strings and unbounded integers. A Python string is modelled
  as a \<^typ>\<open>string\<close>, a Python integer as an \<^typ>\<open>int\<close>, and every exception the
  module can raise is a value of the type \<open>error\<close>; a function that may raise returns
  \<open>error + 'a\<close>, with \<open>Inl\<close> for the exception.

  Character classes (case mapping, whitespace, decimal digits) are those of the ASCII
  range; a character outside it is taken as a caseless symbol that is neither a digit nor
  whitespace.
\<close>

subsection \<open>Exceptions and values\<close>

datatype error = InvalidFormat | InvalidLength | InvalidChecksum | ValueError | IndexError

text \<open>
  Modelled from the spec: the module stdnum.exceptions is not among the sources. The
  specification (section 7) gives InvalidFormat, InvalidLength and InvalidChecksum as the
  specialisations of one common validation-failure category, which is what
  \<^verbatim>\<open>except ValidationError\<close> catches. ValueError and IndexError are Python's own.
\<close>

fun is_ValidationError :: "error \<Rightarrow> bool" where
  "is_ValidationError InvalidFormat = True"
| "is_ValidationError InvalidLength = True"
| "is_ValidationError InvalidChecksum = True"
| "is_ValidationError ValueError = False"
| "is_ValidationError IndexError = False"

text \<open>The argument of \<^verbatim>\<open>compact\<close> is tested with \<^verbatim>\<open>isinstance(code, str)\<close>.\<close>

datatype py_value = Str string | NonStr

subsection \<open>String primitives of Python\<close>

text \<open>
  The code point of a character is an integer, as Python's \<^verbatim>\<open>ord\<close> gives it; all
  arithmetic on digits is integer arithmetic.
\<close>

definition ord :: "char \<Rightarrow> int" where
  "ord c = of_char c"

definition chr :: "int \<Rightarrow> char" where
  "chr n = char_of n"

definition upper_char :: "char \<Rightarrow> char" where
  "upper_char c = (if 97 \<le> ord c \<and> ord c \<le> 122 then chr (ord c - 32) else c)"

definition upper :: "string \<Rightarrow> string" where
  "upper s = map upper_char s"

definition is_space :: "char \<Rightarrow> bool" where
  "is_space c = ((9 \<le> ord c \<and> ord c \<le> 13) \<or> (28 \<le> ord c \<and> ord c \<le> 32))"

definition strip :: "string \<Rightarrow> string" where
  "strip s = rev (dropWhile is_space (rev (dropWhile is_space s)))"

definition is_digit :: "char \<Rightarrow> bool" where
  "is_digit c = (48 \<le> ord c \<and> ord c \<le> 57)"

definition digit_val :: "char \<Rightarrow> int" where
  "digit_val c = ord c - 48"

definition digit_char :: "int \<Rightarrow> char" where
  "digit_char d = chr (48 + d)"

text \<open>
  \<^verbatim>\<open>s.zfill(width)\<close>: zeros are put on the left, after a leading sign if there is one.
\<close>

definition zfill :: "nat \<Rightarrow> string \<Rightarrow> string" where
  "zfill width s =
     (if width \<le> length s then s
      else (case s of
              [] \<Rightarrow> replicate width (CHR ''0'')
            | c # cs \<Rightarrow>
                if c = CHR ''+'' \<or> c = CHR ''-''
                then c # replicate (width - length s) (CHR ''0'') @ cs
                else replicate (width - length s) (CHR ''0'') @ s))"

text \<open>
  CPython bounds the conversions between \<^verbatim>\<open>str\<close> and \<^verbatim>\<open>int\<close>: with the default
  setting of \<^verbatim>\<open>sys.int_max_str_digits\<close>, a conversion of more than 4300 decimal digits
  raises ValueError, in both directions.
\<close>

definition max_str_digits :: int where
  "max_str_digits = 4300"

text \<open>
  \<^verbatim>\<open>str(n)\<close> for an integer: decimal digits, with a minus sign when negative.
  \<open>str_int\<close> is the numeral itself, \<open>py_str\<close> the call, which the digit limit can
  refuse.
\<close>

function str_digits :: "int \<Rightarrow> string" where
  "str_digits n =
     (if n < 10 then [digit_char n] else str_digits (n div 10) @ [digit_char (n mod 10)])"
  by pat_completeness auto
termination
  by (relation "measure nat") auto

declare str_digits.simps [simp del]

definition str_int :: "int \<Rightarrow> string" where
  "str_int i = (if i < 0 then CHR ''-'' # str_digits (- i) else str_digits i)"

definition py_str :: "int \<Rightarrow> error + string" where
  "py_str i =
     (if max_str_digits < int (length (str_digits (abs i))) then Inl ValueError
      else Inr (str_int i))"

text \<open>
  \<^verbatim>\<open>int(s)\<close> for a string: surrounding whitespace is dropped, one sign is allowed, then
  come decimal digits, where single underscores may stand between two digits. Anything
  else raises ValueError, and so does a literal of more than 4300 digits (underscores
  not counted). The whitespace \<^verbatim>\<open>int\<close> drops is the blank and the characters 9 to 13;
  unlike \<^verbatim>\<open>str.strip\<close> it does not take the separators 28 to 31.
\<close>

definition is_int_space :: "char \<Rightarrow> bool" where
  "is_int_space c = ((9 \<le> ord c \<and> ord c \<le> 13) \<or> ord c = 32)"

definition int_strip :: "string \<Rightarrow> string" where
  "int_strip s = rev (dropWhile is_int_space (rev (dropWhile is_int_space s)))"

fun int_digits :: "int \<Rightarrow> string \<Rightarrow> int option" where
  "int_digits acc [] = Some acc"
| "int_digits acc (c # cs) =
     (if is_digit c then int_digits (10 * acc + digit_val c) cs
      else if c = CHR ''_'' then
        (case cs of
           [] \<Rightarrow> None
         | d # ds \<Rightarrow> if is_digit d then int_digits (10 * acc + digit_val d) ds else None)
      else None)"

definition int_unsigned :: "string \<Rightarrow> int option" where
  "int_unsigned s =
     (case s of
        [] \<Rightarrow> None
      | c # cs \<Rightarrow>
          if \<not> is_digit c then None
          else if max_str_digits < int (length (filter is_digit s)) then None
          else int_digits (digit_val c) cs)"

definition py_int :: "string \<Rightarrow> error + int" where
  "py_int s =
     (case int_strip s of
        [] \<Rightarrow> Inl ValueError
      | c # cs \<Rightarrow>
          if c = CHR ''-'' then
            (case int_unsigned cs of None \<Rightarrow> Inl ValueError | Some n \<Rightarrow> Inr (- n))
          else if c = CHR ''+'' then
            (case int_unsigned cs of None \<Rightarrow> Inl ValueError | Some n \<Rightarrow> Inr n)
          else
            (case int_unsigned (c # cs) of None \<Rightarrow> Inl ValueError | Some n \<Rightarrow> Inr n))"

text \<open>
  \<^verbatim>\<open>t.index(x)\<close> for a one-character \<^verbatim>\<open>x\<close>: the first position of the character,
  \<open>None\<close> where Python raises ValueError. \<^verbatim>\<open>x in t\<close> is then membership in \<open>set t\<close>.
\<close>

fun index_str :: "string \<Rightarrow> char \<Rightarrow> nat option" where
  "index_str [] x = None"
| "index_str (c # cs) x = (if c = x then Some 0 else map_option Suc (index_str cs x))"

subsection \<open>The table and the two conversions\<close>

definition AIC_TABLE :: string where
  "AIC_TABLE = ''0123456789BCDFGHJKLMNPQRSTUVWXYZ''"

text \<open>\<^verbatim>\<open>AIC_TABLE[i]\<close>: a negative index counts from the end, out of range is IndexError.\<close>

definition table_at :: "int \<Rightarrow> error + char" where
  "table_at i =
     (if 0 \<le> i \<and> i < int (length AIC_TABLE) then Inr (AIC_TABLE ! nat i)
      else if - int (length AIC_TABLE) \<le> i \<and> i < 0
        then Inr (AIC_TABLE ! nat (int (length AIC_TABLE) + i))
      else Inl IndexError)"

text \<open>
  The loop of \<^verbatim>\<open>from_base32\<close> over \<^verbatim>\<open>enumerate(string)\<close>, the string already
  reversed; \<open>None\<close> is the ValueError of \<^verbatim>\<open>index\<close>, which the function turns into
  InvalidFormat. The call of \<^verbatim>\<open>str\<close> comes after the \<^verbatim>\<open>try\<close> block, so what it
  raises is not caught.
\<close>

fun from_base32_loop :: "nat \<Rightarrow> string \<Rightarrow> int \<Rightarrow> int option" where
  "from_base32_loop idx [] tot = Some tot"
| "from_base32_loop idx (x # xs) tot =
     (case index_str AIC_TABLE (upper_char x) of
        None \<Rightarrow> None
      | Some k \<Rightarrow> from_base32_loop (Suc idx) xs (tot + int k * 32 ^ idx))"

definition from_base32 :: "string \<Rightarrow> error + string" where
  "from_base32 string =
     (case from_base32_loop 0 (rev string) 0 of
        None \<Rightarrow> Inl InvalidFormat
      | Some tot \<Rightarrow>
          (case py_str tot of Inl e \<Rightarrow> Inl e | Inr digits \<Rightarrow> Inr (zfill 9 digits)))"

text \<open>The while loop of \<^verbatim>\<open>to_base32\<close>, returning the last remainder and the characters.\<close>

function to_base32_loop :: "int \<Rightarrow> string \<Rightarrow> error + (int \<times> string)" where
  "to_base32_loop remainder res =
     (if remainder > 31 then
        (case table_at (remainder mod 32) of
           Inl e \<Rightarrow> Inl e
         | Inr char \<Rightarrow> to_base32_loop (remainder div 32) (res @ [char]))
      else Inr (remainder, res))"
  by pat_completeness auto
termination
  by (relation "measure (\<lambda>(remainder, res). nat remainder)") auto

declare to_base32_loop.simps [simp del]

definition to_base32 :: "string \<Rightarrow> error + string" where
  "to_base32 string =
     (case py_int string of
        Inl e \<Rightarrow> Inl e
      | Inr n \<Rightarrow>
          (case to_base32_loop n [] of
             Inl e \<Rightarrow> Inl e
           | Inr (remainder, res) \<Rightarrow>
               (case table_at remainder of
                  Inl e \<Rightarrow> Inl e
                | Inr char \<Rightarrow> Inr (zfill 6 (rev (res @ [char]))))))"

subsection \<open>The check digit\<close>

definition weights :: "int list" where
  "weights = [1, 2, 1, 2, 1, 2, 1, 2]"

text \<open>
  The generator \<^verbatim>\<open>(w * int(n) for w, n in zip(weights, aic))\<close>, consumed by the sum of
  the folded products; the first character that \<^verbatim>\<open>int\<close> refuses raises.
\<close>

fun weighted_sum :: "(int \<times> char) list \<Rightarrow> error + int" where
  "weighted_sum [] = Inr 0"
| "weighted_sum ((w, n) # ps) =
     (case py_int [n] of
        Inl e \<Rightarrow> Inl e
      | Inr d \<Rightarrow>
          (case weighted_sum ps of
             Inl e \<Rightarrow> Inl e
           | Inr t \<Rightarrow> Inr (((w * d) div 10) + ((w * d) mod 10) + t)))"

definition calc_check_digit :: "string \<Rightarrow> error + string" where
  "calc_check_digit aic =
     (case weighted_sum (zip weights aic) of
        Inl e \<Rightarrow> Inl e
      | Inr t \<Rightarrow> py_str (t mod 10))"

definition check_base10_checksum :: "string \<Rightarrow> error + bool" where
  "check_base10_checksum aic =
     (case calc_check_digit aic of
        Inl e \<Rightarrow> Inl e
      | Inr char \<Rightarrow> (if aic = [] then Inl IndexError else Inr ([last aic] = char)))"

subsection \<open>Validation\<close>

definition is_base10 :: "string \<Rightarrow> error + bool" where
  "is_base10 code =
     (if length code \<noteq> 9 then Inl InvalidLength
      else if \<not> list_all (\<lambda>c. upper_char c \<in> set (take 10 AIC_TABLE)) code then Inl InvalidFormat
      else if hd code \<noteq> CHR ''0'' then Inl InvalidFormat
      else (case check_base10_checksum code of
              Inl e \<Rightarrow> Inl e
            | Inr res \<Rightarrow> if \<not> res then Inl InvalidChecksum else Inr res))"

definition is_base32 :: "string \<Rightarrow> error + bool" where
  "is_base32 code =
     (if length code \<noteq> 6 then Inl InvalidLength
      else if \<not> list_all (\<lambda>c. upper_char c \<in> set AIC_TABLE) code then Inl InvalidFormat
      else (case from_base32 code of
              Inl e \<Rightarrow> Inl e
            | Inr converted \<Rightarrow> is_base10 converted))"

text \<open>
  Modelled from the spec: the function \<^verbatim>\<open>clean\<close> of stdnum.util is not among the
  sources. The specification (section 6) gives it as
  \<^verbatim>\<open>clean(text, charsToStrip) -> text\<close>, which removes the specified characters from
  the string.
\<close>

definition clean :: "string \<Rightarrow> string \<Rightarrow> string" where
  "clean number deletechars = filter (\<lambda>x. x \<notin> set deletechars) number"

fun compact :: "py_value \<Rightarrow> error + string" where
  "compact NonStr = Inl InvalidFormat"
| "compact (Str code) = Inr (strip (upper (clean code '' '')))"

definition validate :: "py_value \<Rightarrow> error + string" where
  "validate v =
     (case compact v of
        Inl e \<Rightarrow> Inl e
      | Inr code \<Rightarrow>
          if length code = 6 then
            (case is_base32 code of Inl e \<Rightarrow> Inl e | Inr _ \<Rightarrow> from_base32 code)
          else
            (case is_base10 code of Inl e \<Rightarrow> Inl e | Inr _ \<Rightarrow> Inr code))"

text \<open>
  \<^verbatim>\<open>is_valid\<close> catches ValidationError only; any other exception goes through.
\<close>

definition is_valid :: "py_value \<Rightarrow> error + bool" where
  "is_valid v =
     (case validate v of
        Inr s \<Rightarrow> Inr (s \<noteq> [])
      | Inl e \<Rightarrow> if is_ValidationError e then Inr False else Inl e)"

subsection \<open>The check digit as the specification words it\<close>

text \<open>
  The specification (section 4.3): the digit at position \<open>i\<close>, for positions 0 to 7, is
  multiplied by a weight that alternates 1, 2, 1, 2, ... starting with 1 at position 0;
  each product \<open>x\<close> is folded into \<open>x div 10 + x mod 10\<close>; the eight folded values are
  summed. The check digit is that sum modulo 10.
\<close>

definition spec_weight :: "nat \<Rightarrow> int" where
  "spec_weight i = (if even i then 1 else 2)"

definition fold_digits :: "int \<Rightarrow> int" where
  "fold_digits x = x div 10 + x mod 10"

definition spec_check_sum :: "string \<Rightarrow> int" where
  "spec_check_sum s = (\<Sum>i\<leftarrow>[0..<8]. fold_digits (spec_weight i * digit_val (s ! i)))"

subsection \<open>Numerals as the specification words them\<close>

text \<open>
  The specification (section 4.2) reads a base32 code as a big-endian numeral: the value
  of a character is its index in the table, after uppercasing, and the value of the code
  is the sum of the character values, each times 32 to the power of its position counted
  from the least significant end. A character outside the table is given the value 0
  here; the conversions reject it.
\<close>

definition digit_value :: "char \<Rightarrow> int" where
  "digit_value c = (case index_str AIC_TABLE (upper_char c) of None \<Rightarrow> 0 | Some k \<Rightarrow> int k)"

definition base32_value :: "string \<Rightarrow> int" where
  "base32_value s = (\<Sum>i\<leftarrow>[0..<length s]. digit_value (s ! i) * 32 ^ (length s - 1 - i))"

text \<open>The test of \<^verbatim>\<open>is_base32\<close> on the characters: each one, uppercased, is in the table.\<close>

definition in_alphabet :: "string \<Rightarrow> bool" where
  "in_alphabet s = list_all (\<lambda>c. upper_char c \<in> set AIC_TABLE) s"

text \<open>
  The value of a code read from its least significant character, which is the order the
  loop of \<^verbatim>\<open>from_base32\<close> walks in.
\<close>

fun le_value :: "string \<Rightarrow> int" where
  "le_value [] = 0"
| "le_value (x # xs) = digit_value x + 32 * le_value xs"

text \<open>The integer a string of decimal digits stands for, most significant digit first.\<close>

definition dec_value :: "string \<Rightarrow> int" where
  "dec_value s = foldl (\<lambda>a c. 10 * a + digit_val c) 0 s"


section \<open>Properties\<close>

subsection \<open>Characters and digits\<close>

lemma ord_range: "0 \<le> ord c \<and> ord c < 256"
proof -
  have "ord c = int (of_char c)" by (simp add: ord_def of_nat_of_char)
  moreover have "(of_char c :: nat) < 256" by simp
  ultimately show ?thesis by linarith
qed

lemma ord_inj: "ord c = ord d \<longleftrightarrow> c = d"
  by (simp add: ord_def)

lemma chr_ord: "chr (ord c) = c"
  by (simp add: chr_def ord_def)

lemma ord_chr: "0 \<le> n \<Longrightarrow> n < 256 \<Longrightarrow> ord (chr n) = n"
  by (simp add: chr_def ord_def)

lemma char_eq_ord: "c = d \<longleftrightarrow> ord c = ord d"
  by (simp add: ord_inj)

lemma in_digits_iff: "c \<in> set (take 10 AIC_TABLE) \<longleftrightarrow> is_digit c"
proof -
  have "c \<in> set (take 10 AIC_TABLE) \<longleftrightarrow> ord c \<in> {48,49,50,51,52,53,54,55,56,57}"
    by (simp add: AIC_TABLE_def char_eq_ord [of c] ord_def)
  also have "\<dots> \<longleftrightarrow> is_digit c"
    unfolding is_digit_def by (simp, arith)
  finally show ?thesis .
qed

lemma upper_char_digit: "is_digit c \<Longrightarrow> upper_char c = c"
  by (simp add: upper_char_def is_digit_def)

lemma upper_in_digits_iff: "upper_char c \<in> set (take 10 AIC_TABLE) \<longleftrightarrow> is_digit c"
proof (cases "97 \<le> ord c \<and> ord c \<le> 122")
  case True
  then have "ord (upper_char c) = ord c - 32"
    by (simp add: upper_char_def ord_chr)
  with True show ?thesis
    by (simp add: in_digits_iff is_digit_def)
next
  case False
  then have "upper_char c = c"
    by (auto simp: upper_char_def)
  then show ?thesis
    by (simp add: in_digits_iff)
qed


lemma digit_val_range: "is_digit c \<Longrightarrow> 0 \<le> digit_val c \<and> digit_val c \<le> 9"
  by (simp add: is_digit_def digit_val_def)

lemma digit_char_val: "is_digit c \<Longrightarrow> digit_char (digit_val c) = c"
  by (simp add: digit_char_def digit_val_def chr_ord)

lemma digit_val_char: "0 \<le> d \<Longrightarrow> d \<le> 9 \<Longrightarrow> digit_val (digit_char d) = d"
  by (simp add: digit_char_def digit_val_def ord_chr)

lemma is_digit_char: "0 \<le> d \<Longrightarrow> d \<le> 9 \<Longrightarrow> is_digit (digit_char d)"
  by (simp add: digit_char_def is_digit_def ord_chr)

lemma digit_val_inj: "is_digit c \<Longrightarrow> is_digit d \<Longrightarrow> digit_val c = digit_val d \<Longrightarrow> c = d"
  by (simp add: digit_val_def ord_inj)

lemma digit_not_space: "is_digit c \<Longrightarrow> \<not> is_space c"
  by (simp add: is_digit_def is_space_def)

lemma digit_not_int_space: "is_digit c \<Longrightarrow> \<not> is_int_space c"
  by (simp add: is_digit_def is_int_space_def)

lemma digit_not_sign: "is_digit c \<Longrightarrow> c \<noteq> CHR ''-'' \<and> c \<noteq> CHR ''+'' \<and> c \<noteq> CHR ''_''"
  by (auto simp: is_digit_def ord_def)

lemma zero_char: "digit_char 0 = CHR ''0''"
  by code_simp

lemma is_digit_zero: "is_digit (CHR ''0'')"
  by (simp add: is_digit_def ord_def)

subsection \<open>The check digit on digit strings\<close>

lemma int_strip_digit: "is_digit c \<Longrightarrow> int_strip [c] = [c]"
  by (simp add: int_strip_def digit_not_int_space)

lemma py_int_digit: "is_digit c \<Longrightarrow> py_int [c] = Inr (digit_val c)"
  using digit_not_sign [of c]
  by (simp add: py_int_def int_strip_digit int_unsigned_def max_str_digits_def)

lemma weighted_sum_digits:
  "list_all is_digit (map snd ps) \<Longrightarrow>
   weighted_sum ps =
     Inr (\<Sum>(w, n)\<leftarrow>ps. (w * digit_val n) div 10 + (w * digit_val n) mod 10)"
  by (induction ps) (auto simp: py_int_digit)

lemma len8: "length xs = 8 \<Longrightarrow> \<exists>a b c d e f g h. xs = [a,b,c,d,e,f,g,h]"
  by (auto simp: numeral_eq_Suc length_Suc_conv)

lemma zip_weights_take: "zip weights aic = zip weights (take 8 aic)"
proof -
  have "zip weights aic = take 8 (zip weights aic)"
    by (simp add: weights_def)
  also have "\<dots> = zip (take 8 weights) (take 8 aic)"
    by (rule take_zip)
  finally show ?thesis
    by (simp add: weights_def)
qed

lemma str_int_digit: "0 \<le> d \<Longrightarrow> d < 10 \<Longrightarrow> str_int d = [digit_char d]"
  by (simp add: str_int_def str_digits.simps)

lemma py_str_digit: "0 \<le> d \<Longrightarrow> d < 10 \<Longrightarrow> py_str d = Inr (str_int d)"
  by (simp add: py_str_def str_digits.simps max_str_digits_def)

lemma py_str_mod_10: "py_str (t mod 10) = Inr (str_int (t mod 10))"
  by (rule py_str_digit) simp_all

subsection \<open>Decimal numerals: str and int\<close>

lemma dec_value_snoc: "dec_value (s @ [c]) = 10 * dec_value s + digit_val c"
  by (simp add: dec_value_def)

lemma dec_value_Nil: "dec_value [] = 0"
  by (simp add: dec_value_def)

lemma str_digits_digits: "0 \<le> n \<Longrightarrow> list_all is_digit (str_digits n)"
proof (induction n rule: str_digits.induct)
  case (1 n)
  show ?case
  proof (cases "n < 10")
    case True
    with "1.prems" show ?thesis
      by (simp add: str_digits.simps [of n] is_digit_char)
  next
    case False
    then have "0 \<le> n div 10" by simp
    with False "1.IH" have "list_all is_digit (str_digits (n div 10))" by simp
    moreover have "is_digit (digit_char (n mod 10))"
      by (rule is_digit_char) simp_all
    ultimately show ?thesis using False
      by (simp add: str_digits.simps [of n])
  qed
qed

lemma str_digits_value: "0 \<le> n \<Longrightarrow> dec_value (str_digits n) = n"
proof (induction n rule: str_digits.induct)
  case (1 n)
  show ?case
  proof (cases "n < 10")
    case True
    with "1.prems" show ?thesis
      by (simp add: str_digits.simps [of n] dec_value_def digit_val_char)
  next
    case False
    then have "0 \<le> n div 10" by simp
    with False "1.IH" have "dec_value (str_digits (n div 10)) = n div 10" by simp
    moreover have "digit_val (digit_char (n mod 10)) = n mod 10"
      by (rule digit_val_char) simp_all
    ultimately show ?thesis using False
      by (simp add: str_digits.simps [of n] dec_value_snoc)
  qed
qed

lemma str_digits_nonempty: "str_digits n \<noteq> []"
  by (subst str_digits.simps) simp

lemma str_digits_length_le: "0 \<le> n \<Longrightarrow> n < 10 ^ Suc k \<Longrightarrow> length (str_digits n) \<le> Suc k"
proof (induction k arbitrary: n)
  case 0
  then show ?case by (simp add: str_digits.simps [of n])
next
  case (Suc k)
  show ?case
  proof (cases "n < 10")
    case True
    then show ?thesis by (simp add: str_digits.simps [of n])
  next
    case False
    define m :: int where "m = 10 ^ Suc k"
    from Suc.prems have "n < 10 * m" by (simp add: m_def)
    then have "n div 10 < m" by linarith
    then have "n div 10 < 10 ^ Suc k" by (simp only: m_def)
    moreover from False have "0 \<le> n div 10" by simp
    ultimately have "length (str_digits (n div 10)) \<le> Suc k" by (rule Suc.IH [rotated])
    with False show ?thesis by (simp add: str_digits.simps [of n])
  qed
qed

lemma str_digits_length_ge: "10 ^ k \<le> n \<Longrightarrow> Suc k \<le> length (str_digits n)"
proof (induction k arbitrary: n)
  case 0
  then show ?case using str_digits_nonempty [of n] by (cases "str_digits n") auto
next
  case (Suc k)
  define m :: int where "m = 10 ^ k"
  have "1 \<le> m" by (simp add: m_def)
  moreover from Suc.prems have "10 * m \<le> n" by (simp add: m_def)
  ultimately have "10 \<le> n" and "m \<le> n div 10" by linarith+
  then have "10 ^ k \<le> n div 10" by (simp only: m_def)
  then have "Suc k \<le> length (str_digits (n div 10))" by (rule Suc.IH)
  with \<open>10 \<le> n\<close> show ?case by (simp add: str_digits.simps [of n])
qed

lemma str_digits_hd: "1 \<le> n \<Longrightarrow> hd (str_digits n) \<noteq> CHR ''0''"
proof (induction n rule: str_digits.induct)
  case (1 n)
  show ?case
  proof (cases "n < 10")
    case True
    with "1.prems" have "digit_val (digit_char n) = n" by (simp add: digit_val_char)
    moreover have "digit_val (CHR ''0'') = 0" by (simp add: digit_val_def ord_def)
    ultimately have "digit_char n \<noteq> CHR ''0''" using "1.prems" by auto
    with True show ?thesis by (simp add: str_digits.simps [of n])
  next
    case False
    then have "1 \<le> n div 10" by simp
    with False "1.IH" have "hd (str_digits (n div 10)) \<noteq> CHR ''0''" by simp
    with False show ?thesis
      by (simp add: str_digits.simps [of n] str_digits_nonempty)
  qed
qed

lemma digit_val_zero: "digit_val (CHR ''0'') = 0"
  by (simp add: digit_val_def ord_def)

lemma last_digit_unique:
  fixes a b c d :: int
  shows "10 * a + c = 10 * b + d \<Longrightarrow> 0 \<le> c \<Longrightarrow> c \<le> 9 \<Longrightarrow> 0 \<le> d \<Longrightarrow> d \<le> 9 \<Longrightarrow>
         c = d \<and> a = b"
  by presburger

lemma dec_value_inj:
  "length s = length t \<Longrightarrow> list_all is_digit s \<Longrightarrow> list_all is_digit t \<Longrightarrow>
   dec_value s = dec_value t \<Longrightarrow> s = t"
proof (induction s arbitrary: t rule: rev_induct)
  case Nil
  then show ?case by simp
next
  case (snoc c s)
  from snoc.prems(1) obtain d t' where t: "t = t' @ [d]"
    by (cases t rule: rev_cases) auto
  from snoc.prems t have len: "length s = length t'"
    and ds: "list_all is_digit s" and dt: "list_all is_digit t'"
    and dc: "is_digit c" and dd: "is_digit d" by auto
  from snoc.prems(4) t have eq: "10 * dec_value s + digit_val c = 10 * dec_value t' + digit_val d"
    by (simp add: dec_value_snoc)
  have rc: "0 \<le> digit_val c \<and> digit_val c \<le> 9" using dc by (rule digit_val_range)
  have rd: "0 \<le> digit_val d \<and> digit_val d \<le> 9" using dd by (rule digit_val_range)
  from eq rc rd have "digit_val c = digit_val d" and "dec_value s = dec_value t'"
    using last_digit_unique [of "dec_value s" "digit_val c" "dec_value t'" "digit_val d"] by auto
  with dc dd len ds dt snoc.IH have "c = d" and "s = t'"
    by (auto dest: digit_val_inj)
  with t show ?case by simp
qed

lemma dec_value_zeros: "dec_value (replicate k (CHR ''0'') @ s) = dec_value s"
proof -
  have "foldl (\<lambda>a c. 10 * a + digit_val c) 0 (replicate k (CHR ''0'')) = 0"
    by (induction k) (simp_all add: digit_val_zero)
  then show ?thesis by (simp add: dec_value_def)
qed

lemma dec_value_bound: "list_all is_digit s \<Longrightarrow> 0 \<le> dec_value s \<and> dec_value s < 10 ^ length s"
proof (induction s rule: rev_induct)
  case Nil
  then show ?case by (simp add: dec_value_def)
next
  case (snoc c s)
  then have "0 \<le> dec_value s" and "dec_value s + 1 \<le> 10 ^ length s" by auto
  moreover from snoc.prems have "0 \<le> digit_val c \<and> digit_val c \<le> 9"
    by (simp add: digit_val_range)
  ultimately have "0 \<le> 10 * dec_value s + digit_val c"
    and "10 * dec_value s + digit_val c < 10 * 10 ^ length s" by linarith+
  then show ?case by (simp add: dec_value_snoc)
qed

lemma int_digits_digits:
  "list_all is_digit s \<Longrightarrow>
   int_digits acc s = Some (foldl (\<lambda>a c. 10 * a + digit_val c) acc s)"
  by (induction s arbitrary: acc) auto

lemma trim_fixed:
  assumes "s = [] \<or> (\<not> P (hd s) \<and> \<not> P (last s))"
  shows "rev (dropWhile P (rev (dropWhile P s))) = s"
proof (cases "s = []")
  case True
  then show ?thesis by simp
next
  case False
  with assms have h: "\<not> P (hd s)" and l: "\<not> P (last s)" by auto
  from False h have a: "dropWhile P s = s"
    by (cases s) auto
  from False l have b: "dropWhile P (rev s) = rev s"
    by (cases "rev s") (auto simp: hd_rev [symmetric])
  show ?thesis by (simp add: a b)
qed

lemma int_strip_digits: "list_all is_digit s \<Longrightarrow> int_strip s = s"
  unfolding int_strip_def
proof (rule trim_fixed, cases "s = []")
  case True
  then show "s = [] \<or> \<not> is_int_space (hd s) \<and> \<not> is_int_space (last s)" by simp
next
  case False
  assume "list_all is_digit s"
  with False have "is_digit (hd s)" and "is_digit (last s)"
    by (auto simp: list_all_iff)
  then show "s = [] \<or> \<not> is_int_space (hd s) \<and> \<not> is_int_space (last s)"
    by (simp add: digit_not_int_space)
qed

lemma filter_digits: "list_all is_digit s \<Longrightarrow> filter is_digit s = s"
  by (simp add: list_all_iff)

lemma str_int_nonneg: "0 \<le> n \<Longrightarrow> str_int n = str_digits n"
  by (simp add: str_int_def)

lemma py_str_small:
  assumes "0 \<le> n" and "n < 10 ^ 10"
  shows "py_str n = Inr (str_int n)"
proof -
  from assms(2) have "n < 10 ^ Suc 9" by simp
  with assms(1) have "length (str_digits n) \<le> Suc 9" by (rule str_digits_length_le)
  with assms(1) show ?thesis
    by (simp add: py_str_def max_str_digits_def)
qed

lemma py_int_digits:
  assumes "s \<noteq> []" and "list_all is_digit s" and "length s \<le> 4300"
  shows "py_int s = Inr (dec_value s)"
proof -
  from assms(1) obtain c cs where s: "s = c # cs" by (cases s) auto
  with assms(2) have c: "is_digit c" and cs: "list_all is_digit cs" by auto
  from c have ns: "c \<noteq> CHR ''-''" "c \<noteq> CHR ''+''" using digit_not_sign by auto
  have "\<not> max_str_digits < int (length (filter is_digit s))"
    using assms(3) by (simp add: filter_digits [OF assms(2)] max_str_digits_def)
  then have "int_unsigned (c # cs) = Some (dec_value (c # cs))"
    using c by (simp add: s int_unsigned_def int_digits_digits [OF cs] dec_value_def)
  with ns show ?thesis
    using int_strip_digits [OF assms(2)] by (simp add: py_int_def s)
qed

lemma py_int_too_long:
  assumes "list_all is_digit s" and "4300 < length s"
  shows "py_int s = Inl ValueError"
proof -
  from assms(2) obtain c cs where s: "s = c # cs" by (cases s) auto
  with assms(1) have c: "is_digit c" by auto
  from c have ns: "c \<noteq> CHR ''-''" "c \<noteq> CHR ''+''" using digit_not_sign by auto
  have "max_str_digits < int (length (filter is_digit s))"
    using assms(2) by (simp add: filter_digits [OF assms(1)] max_str_digits_def)
  then have "int_unsigned (c # cs) = None"
    using c by (simp add: s int_unsigned_def)
  with ns show ?thesis
    using int_strip_digits [OF assms(1)] by (simp add: py_int_def s)
qed

subsection \<open>Base32 numerals and the loop of from_base32\<close>

lemma index_str_None: "index_str t x = None \<longleftrightarrow> x \<notin> set t"
  by (induction t) auto

lemma index_str_Some: "index_str t x = Some k \<Longrightarrow> k < length t \<and> t ! k = x"
  by (induction t arbitrary: k) (auto split: if_splits)

lemma index_str_in: "x \<in> set t \<Longrightarrow> \<exists>k. index_str t x = Some k"
  using index_str_None [of t x] by (cases "index_str t x") auto

lemma from_base32_loop_value:
  "in_alphabet xs \<Longrightarrow> from_base32_loop idx xs tot = Some (tot + 32 ^ idx * le_value xs)"
proof (induction xs arbitrary: idx tot)
  case Nil
  then show ?case by simp
next
  case (Cons x xs)
  from Cons.prems have x: "upper_char x \<in> set AIC_TABLE" and xs: "in_alphabet xs"
    by (simp_all add: in_alphabet_def)
  from x obtain k where k: "index_str AIC_TABLE (upper_char x) = Some k"
    using index_str_in by blast
  then have dv: "digit_value x = int k" by (simp add: digit_value_def)
  show ?case
    by (simp add: k dv Cons.IH [OF xs] algebra_simps)
qed

lemma from_base32_loop_None:
  "\<not> in_alphabet xs \<Longrightarrow> from_base32_loop idx xs tot = None"
proof (induction xs arbitrary: idx tot)
  case Nil
  then show ?case by (simp add: in_alphabet_def)
next
  case (Cons x xs)
  show ?case
  proof (cases "index_str AIC_TABLE (upper_char x)")
    case None
    then show ?thesis by simp
  next
    case (Some k)
    then have "upper_char x \<in> set AIC_TABLE"
      using index_str_None [of AIC_TABLE "upper_char x"] by auto
    with Cons.prems have "\<not> in_alphabet xs" by (simp add: in_alphabet_def)
    then show ?thesis by (simp add: Some Cons.IH)
  qed
qed

lemma le_value_append: "le_value (xs @ ys) = le_value xs + 32 ^ length xs * le_value ys"
  by (induction xs) (auto simp: algebra_simps)

lemma base32_value_Cons:
  "base32_value (x # s) = digit_value x * 32 ^ length s + base32_value s"
proof -
  have "[0..<length (x # s)] = 0 # map Suc [0..<length s]"
    by (simp add: upt_conv_Cons map_Suc_upt del: upt_Suc)
  then show ?thesis
    by (simp add: base32_value_def comp_def del: upt_Suc)
qed

lemma le_value_rev: "le_value (rev s) = base32_value s"
proof (induction s)
  case Nil
  then show ?case by (simp add: base32_value_def)
next
  case (Cons x s)
  then show ?case
    by (simp add: le_value_append base32_value_Cons)
qed

lemma in_alphabet_rev: "in_alphabet (rev s) = in_alphabet s"
  by (simp add: in_alphabet_def)

lemma digit_value_range: "0 \<le> digit_value c \<and> digit_value c \<le> 31"
proof (cases "index_str AIC_TABLE (upper_char c)")
  case None
  then show ?thesis by (simp add: digit_value_def)
next
  case (Some k)
  then have "k < length AIC_TABLE" using index_str_Some by blast
  then have "k < 32" by (simp add: AIC_TABLE_def)
  with Some show ?thesis by (simp add: digit_value_def)
qed

lemma le_value_bounds: "0 \<le> le_value xs \<and> le_value xs < 32 ^ length xs"
proof (induction xs)
  case Nil
  then show ?case by simp
next
  case (Cons x xs)
  have "0 \<le> digit_value x" "digit_value x \<le> 31" using digit_value_range by auto
  moreover from Cons have "0 \<le> le_value xs" "le_value xs + 1 \<le> 32 ^ length xs" by auto
  ultimately have "0 \<le> digit_value x + 32 * le_value xs"
    and "digit_value x + 32 * le_value xs < 32 * 32 ^ length xs" by linarith+
  then show ?case by simp
qed

lemma base32_value_bounds: "0 \<le> base32_value s \<and> base32_value s < 32 ^ length s"
  using le_value_bounds [of "rev s"] by (simp add: le_value_rev)

lemma py_str_base32_value:
  assumes "length s \<le> 6"
  shows "py_str (base32_value s) = Inr (str_int (base32_value s))"
proof (rule py_str_small)
  show "0 \<le> base32_value s" using base32_value_bounds by simp
  have "base32_value s < 32 ^ length s" using base32_value_bounds by simp
  also have "(32::int) ^ length s \<le> 32 ^ 6"
    using assms by (intro power_increasing) simp_all
  finally show "base32_value s < 10 ^ 10" by simp
qed

lemma from_base32_value:
  assumes "in_alphabet s" and "length s = 6"
  shows "from_base32 s = Inr (zfill 9 (str_int (base32_value s)))"
proof -
  have "py_str (base32_value s) = Inr (str_int (base32_value s))"
    using assms(2) by (simp add: py_str_base32_value)
  with assms(1) show ?thesis
    by (simp add: from_base32_def from_base32_loop_value in_alphabet_rev le_value_rev)
qed

lemma from_base32_not_alphabet:
  "\<not> in_alphabet s \<Longrightarrow> from_base32 s = Inl InvalidFormat"
  by (simp add: from_base32_def from_base32_loop_None in_alphabet_rev)

subsection \<open>Padding, the table and the loop of to_base32\<close>

lemma zfill_plain:
  assumes "s \<noteq> []" and "hd s \<noteq> CHR ''+''" and "hd s \<noteq> CHR ''-''"
  shows "zfill w s = replicate (w - length s) (CHR ''0'') @ s"
  using assms by (cases s) (auto simp: zfill_def)

lemma table_length: "length AIC_TABLE = 32"
  by (simp add: AIC_TABLE_def)

lemma table_at_range: "0 \<le> i \<Longrightarrow> i < 32 \<Longrightarrow> table_at i = Inr (AIC_TABLE ! nat i)"
  by (simp add: table_at_def table_length)

lemma table_chars: "list_all (\<lambda>c. upper_char c = c \<and> c \<noteq> CHR ''+'' \<and> c \<noteq> CHR ''-'') AIC_TABLE"
  by code_simp

lemma table_values: "list_all (\<lambda>k. digit_value (AIC_TABLE ! k) = int k) [0..<32]"
  by code_simp

lemma table_char_upper: "c \<in> set AIC_TABLE \<Longrightarrow> upper_char c = c"
  using table_chars by (auto simp: list_all_iff)

lemma table_char_sign: "c \<in> set AIC_TABLE \<Longrightarrow> c \<noteq> CHR ''+'' \<and> c \<noteq> CHR ''-''"
  using table_chars by (auto simp: list_all_iff)

lemma table_digit_value: "k < 32 \<Longrightarrow> digit_value (AIC_TABLE ! k) = int k"
  using table_values by (simp add: list_all_iff)

lemma table_nth_mem: "k < 32 \<Longrightarrow> AIC_TABLE ! k \<in> set AIC_TABLE"
  by (simp add: table_length)

lemma zero_in_table: "CHR ''0'' \<in> set AIC_TABLE"
  by (simp add: AIC_TABLE_def)

lemma digit_value_zero: "digit_value (CHR ''0'') = 0"
  by code_simp

lemma subset_in_alphabet: "set s \<subseteq> set AIC_TABLE \<Longrightarrow> in_alphabet s"
  by (auto simp: in_alphabet_def list_all_iff table_char_upper)

lemma le_value_zeros: "le_value (xs @ replicate k (CHR ''0'')) = le_value xs"
proof -
  have "le_value (replicate k (CHR ''0'')) = 0"
    by (induction k) (simp_all add: digit_value_zero)
  then show ?thesis by (simp add: le_value_append)
qed

lemma to_base32_loop_correct:
  "0 \<le> n \<Longrightarrow>
   \<exists>r ds. to_base32_loop n res = Inr (r, res @ ds) \<and> 0 \<le> r \<and> r \<le> 31 \<and>
          set ds \<subseteq> set AIC_TABLE \<and> le_value ds + 32 ^ length ds * r = n \<and>
          (\<forall>k. n < 32 ^ Suc k \<longrightarrow> length ds \<le> k)"
proof (induction n res rule: to_base32_loop.induct)
  case (1 n res)
  show ?case
  proof (cases "n > 31")
    case False
    with "1.prems" show ?thesis
      by (simp add: to_base32_loop.simps [of n res])
  next
    case True
    define c where "c = AIC_TABLE ! nat (n mod 32)"
    have m: "0 \<le> n mod 32" "n mod 32 < 32" by simp_all
    then have t: "table_at (n mod 32) = Inr c"
      by (simp add: table_at_range c_def)
    from m have k32: "nat (n mod 32) < 32" by simp
    have cin: "c \<in> set AIC_TABLE" unfolding c_def using k32 by (rule table_nth_mem)
    have cv: "digit_value c = n mod 32"
      unfolding c_def using table_digit_value [OF k32] m by simp
    from True have "0 \<le> n div 32" by simp
    with "1.IH" [OF True t] obtain r ds where
      l: "to_base32_loop (n div 32) (res @ [c]) = Inr (r, (res @ [c]) @ ds)"
      and r: "0 \<le> r" "r \<le> 31" and ds: "set ds \<subseteq> set AIC_TABLE"
      and v: "le_value ds + 32 ^ length ds * r = n div 32"
      and len: "\<forall>k. n div 32 < 32 ^ Suc k \<longrightarrow> length ds \<le> k"
      by blast
    have 1: "to_base32_loop n res = Inr (r, res @ (c # ds))"
      using True t l by (simp add: to_base32_loop.simps [of n res])
    have 2: "set (c # ds) \<subseteq> set AIC_TABLE" using cin ds by simp
    have "le_value (c # ds) + 32 ^ length (c # ds) * r = n mod 32 + 32 * (le_value ds + 32 ^ length ds * r)"
      by (simp add: cv algebra_simps)
    also have "\<dots> = n" by (simp add: v)
    finally have 3: "le_value (c # ds) + 32 ^ length (c # ds) * r = n" .
    have 4: "\<forall>k. n < 32 ^ Suc k \<longrightarrow> length (c # ds) \<le> k"
    proof (intro allI impI)
      fix k assume a: "n < 32 ^ Suc k"
      show "length (c # ds) \<le> k"
      proof (cases k)
        case 0
        with a True show ?thesis by simp
      next
        case (Suc j)
        define m :: int where "m = 32 ^ Suc j"
        from a Suc have "n < 32 * m" by (simp add: m_def)
        then have "n div 32 < m" by linarith
        then have "n div 32 < 32 ^ Suc j" by (simp only: m_def)
        with len have "length ds \<le> j" by blast
        with Suc show ?thesis by simp
      qed
    qed
    from 1 2 3 4 r show ?thesis by blast
  qed
qed

lemma to_base32_digits:
  assumes "s \<noteq> []" and "list_all is_digit s" and "dec_value s < 32 ^ 6"
    and "length s \<le> 4300"
  shows "\<exists>b. to_base32 s = Inr b \<and> length b = 6 \<and> set b \<subseteq> set AIC_TABLE \<and>
             base32_value b = dec_value s"
proof -
  define n where "n = dec_value s"
  have p: "py_int s = Inr n" unfolding n_def using assms(1,2,4) by (rule py_int_digits)
  have n0: "0 \<le> n" unfolding n_def using dec_value_bound [OF assms(2)] by simp
  from assms(3) have n6: "n < 32 ^ Suc 5" by (simp add: n_def)
  from to_base32_loop_correct [OF n0, of "[]"] obtain r ds where
    l: "to_base32_loop n [] = Inr (r, ds)"
    and r: "0 \<le> r" "r \<le> 31" and ds: "set ds \<subseteq> set AIC_TABLE"
    and v: "le_value ds + 32 ^ length ds * r = n"
    and len: "\<forall>k. n < 32 ^ Suc k \<longrightarrow> length ds \<le> k"
    by auto
  from len n6 have l5: "length ds \<le> 5" by blast
  define c where "c = AIC_TABLE ! nat r"
  from r have k32: "nat r < 32" by simp
  from r have t: "table_at r = Inr c" by (simp add: table_at_range c_def)
  have cin: "c \<in> set AIC_TABLE" unfolding c_def using k32 by (rule table_nth_mem)
  have cv: "digit_value c = r"
    unfolding c_def using table_digit_value [OF k32] r by simp
  define w where "w = rev (ds @ [c])"
  have wne: "w \<noteq> []" by (simp add: w_def)
  have wset: "set w \<subseteq> set AIC_TABLE" using ds cin by (simp add: w_def)
  have "hd w = c" by (simp add: w_def)
  with cin have sg: "hd w \<noteq> CHR ''+''" "hd w \<noteq> CHR ''-''"
    using table_char_sign by auto
  define b where "b = zfill 6 w"
  have b: "b = replicate (6 - length w) (CHR ''0'') @ w"
    unfolding b_def using wne sg by (rule zfill_plain)
  have tb: "to_base32 s = Inr b"
    by (simp add: to_base32_def p l t b_def w_def)
  have lw: "length w \<le> 6" using l5 by (simp add: w_def)
  then have lb: "length b = 6" by (simp add: b)
  have sb: "set b \<subseteq> set AIC_TABLE"
    using wset zero_in_table by (auto simp: b)
  have "base32_value b = le_value (rev b)" by (simp add: le_value_rev)
  also have "\<dots> = le_value ((ds @ [c]) @ replicate (6 - length w) (CHR ''0''))"
    by (simp add: b w_def)
  also have "\<dots> = le_value (ds @ [c])" by (rule le_value_zeros)
  also have "\<dots> = n" using v by (simp add: le_value_append cv)
  finally have "base32_value b = dec_value s" by (simp add: n_def)
  with tb lb sb show ?thesis by blast
qed

lemma zfill_str_digits:
  "0 \<le> n \<Longrightarrow> zfill w (str_digits n) = replicate (w - length (str_digits n)) (CHR ''0'') @ str_digits n"
proof (rule zfill_plain)
  show "str_digits n \<noteq> []" by (rule str_digits_nonempty)
  assume "0 \<le> n"
  then have "list_all is_digit (str_digits n)" by (rule str_digits_digits)
  then have "is_digit (hd (str_digits n))"
    using str_digits_nonempty [of n] by (auto simp: list_all_iff)
  then show "hd (str_digits n) \<noteq> CHR ''+''" and "hd (str_digits n) \<noteq> CHR ''-''"
    using digit_not_sign by auto
qed

lemma list_all_zeros: "list_all is_digit (replicate k (CHR ''0''))"
  by (simp add: list_all_iff is_digit_zero)

lemma zfill_str_digits_props:
  assumes "0 \<le> n"
  shows "list_all is_digit (zfill w (str_digits n)) \<and> dec_value (zfill w (str_digits n)) = n"
  using assms
  by (simp add: zfill_str_digits str_digits_digits list_all_zeros dec_value_zeros str_digits_value)

lemma zfill9_dec_value:
  assumes "length c = 9" and "list_all is_digit c"
  shows "zfill 9 (str_int (dec_value c)) = c"
proof -
  define n where "n = dec_value c"
  from dec_value_bound [OF assms(2)] assms(1) have n0: "0 \<le> n" and n9: "n < 10 ^ Suc 8"
    by (simp_all add: n_def)
  from n0 n9 have "length (str_digits n) \<le> 9"
    using str_digits_length_le [of n 8] by simp
  then have a: "length (zfill 9 (str_digits n)) = length c"
    using n0 by (simp add: zfill_str_digits assms(1))
  have b: "list_all is_digit (zfill 9 (str_digits n))"
    and v: "dec_value (zfill 9 (str_digits n)) = dec_value c"
    using zfill_str_digits_props [OF n0, of 9] by (simp_all add: n_def)
  have "zfill 9 (str_digits n) = c"
    by (rule dec_value_inj [OF a b assms(2) v])
  with n0 show ?thesis by (simp add: str_int_nonneg n_def)
qed

lemma zfill9_length:
  assumes "0 \<le> v" and "v < 32 ^ 6"
  shows "length (zfill 9 (str_digits v)) = (if v < 10 ^ 9 then 9 else 10)"
proof (cases "v < 10 ^ 9")
  case True
  then have "v < 10 ^ Suc 8" by simp
  with assms(1) have "length (str_digits v) \<le> Suc 8" by (rule str_digits_length_le)
  with True assms(1) show ?thesis by (simp add: zfill_str_digits)
next
  case False
  then have "10 ^ 9 \<le> v" by simp
  then have "Suc 9 \<le> length (str_digits v)" by (rule str_digits_length_ge)
  moreover from assms(2) have "v < 10 ^ Suc 9" by simp
  with assms(1) have "length (str_digits v) \<le> Suc 9" by (rule str_digits_length_le)
  ultimately have "length (str_digits v) = 10" by simp
  with False show ?thesis by (simp add: zfill_def)
qed

subsection \<open>Outcomes of the validation functions\<close>

lemma list_all_upper_digits:
  "list_all (\<lambda>c. upper_char c \<in> set (take 10 AIC_TABLE)) code = list_all is_digit code"
  by (simp add: upper_in_digits_iff)

lemma list_all_take: "list_all P xs \<Longrightarrow> list_all P (take n xs)"
  by (auto simp: list_all_iff dest: in_set_takeD)

lemma snd_zip_digits: "list_all is_digit aic \<Longrightarrow> list_all is_digit (map snd (zip weights aic))"
  by (simp add: map_snd_zip_take list_all_take)

lemma calc_check_digit_digits:
  "list_all is_digit aic \<Longrightarrow>
   calc_check_digit aic =
     Inr (str_int ((\<Sum>(w, n)\<leftarrow>zip weights aic.
                      (w * digit_val n) div 10 + (w * digit_val n) mod 10) mod 10))"
  by (simp add: calc_check_digit_def weighted_sum_digits snd_zip_digits py_str_mod_10)

lemma check_base10_checksum_digits:
  "list_all is_digit aic \<Longrightarrow> aic \<noteq> [] \<Longrightarrow> \<exists>b. check_base10_checksum aic = Inr b"
  by (simp add: check_base10_checksum_def calc_check_digit_digits)

lemma is_base10_Inr:
  "is_base10 code = Inr b \<Longrightarrow>
   b \<and> length code = 9 \<and> list_all is_digit code \<and> hd code = CHR ''0''"
  by (auto simp: is_base10_def list_all_upper_digits split: if_splits sum.splits)

lemma is_base10_Inl: "is_base10 code = Inl e \<Longrightarrow> is_ValidationError e"
proof (cases "length code = 9 \<and> list_all is_digit code")
  case True
  then have "code \<noteq> []" by auto
  with True obtain b where "check_base10_checksum code = Inr b"
    using check_base10_checksum_digits by blast
  moreover assume "is_base10 code = Inl e"
  ultimately show ?thesis
    by (auto simp: is_base10_def split: if_splits)
next
  case False
  moreover assume "is_base10 code = Inl e"
  ultimately show ?thesis
    by (auto simp: is_base10_def list_all_upper_digits split: if_splits)
qed

lemma from_base32_Inl:
  assumes "from_base32 code = Inl e" and "length code = 6"
  shows "e = InvalidFormat"
proof (cases "in_alphabet code")
  case True
  with assms show ?thesis by (simp add: from_base32_value)
next
  case False
  with assms show ?thesis by (simp add: from_base32_not_alphabet)
qed

lemma is_base10_leading:
  "length s = 9 \<Longrightarrow> list_all is_digit s \<Longrightarrow> hd s \<noteq> CHR ''0'' \<Longrightarrow> is_base10 s = Inl InvalidFormat"
  by (simp add: is_base10_def list_all_upper_digits)

lemma is_base32_Inr:
  "is_base32 code = Inr b \<Longrightarrow> \<exists>converted. from_base32 code = Inr converted \<and> is_base10 converted = Inr b"
  by (auto simp: is_base32_def split: if_splits sum.splits)

lemma is_base32_Inl: "is_base32 code = Inl e \<Longrightarrow> is_ValidationError e"
  by (auto simp: is_base32_def split: if_splits sum.splits dest: from_base32_Inl is_base10_Inl)

lemma validate_Inl: "validate v = Inl e \<Longrightarrow> is_ValidationError e"
  by (cases v)
     (auto simp: validate_def split: if_splits sum.splits dest: from_base32_Inl is_base10_Inl is_base32_Inl)

lemma is_base10_True: "is_base10 code = Inr b \<Longrightarrow> is_base10 code = Inr True"
  using is_base10_Inr [of code b] by simp

lemma validate_Inr:
  assumes "validate v = Inr s"
  shows "is_base10 s = Inr True \<and>
   (\<exists>code. compact v = Inr code \<and> (if length code = 6 then from_base32 code = Inr s else s = code))"
proof (cases v)
  case NonStr
  with assms show ?thesis by (simp add: validate_def)
next
  case (Str x)
  define code where "code = strip (upper (clean x '' ''))"
  have c: "compact v = Inr code" by (simp add: Str code_def)
  show ?thesis
  proof (cases "length code = 6")
    case True
    with assms c obtain b where b: "is_base32 code = Inr b" and f: "from_base32 code = Inr s"
      by (auto simp: validate_def split: sum.splits)
    from is_base32_Inr [OF b] f have "is_base10 s = Inr b" by auto
    then have "is_base10 s = Inr True" by (rule is_base10_True)
    with c f True show ?thesis by auto
  next
    case False
    with assms c obtain b where b: "is_base10 code = Inr b" and f: "s = code"
      by (auto simp: validate_def split: sum.splits)
    from b have "is_base10 code = Inr True" by (rule is_base10_True)
    with c f False show ?thesis by auto
  qed
qed

subsection \<open>Length enforcement and the leading zero\<close>

text \<open>
  Claim C7. A string whose length is not 9 fails \<^verbatim>\<open>is_base10\<close> with InvalidLength, and
  a string whose length is not 6 fails \<^verbatim>\<open>is_base32\<close> with InvalidLength, whatever the
  string contains.
\<close>

theorem length_enforcement:
  "(length s \<noteq> 9 \<longrightarrow> is_base10 s = Inl InvalidLength) \<and>
   (length s \<noteq> 6 \<longrightarrow> is_base32 s = Inl InvalidLength)"
  by (simp add: is_base10_def is_base32_def)

theorem length_enforcement_witness:
  "length ''0489753'' \<noteq> 9 \<and> is_base10 ''0489753'' = Inl InvalidLength \<and>
   length ''0489753'' \<noteq> 6 \<and> is_base32 ''0489753'' = Inl InvalidLength"
  using length_enforcement [of "''0489753''"] by simp

text \<open>
  Claim C8. A string of 9 decimal digits whose first character is not the digit zero
  fails \<^verbatim>\<open>is_base10\<close> with InvalidFormat; the check digit plays no part, so this holds
  also when the last digit is the right check digit of the first eight.
\<close>

theorem leading_zero_rule:
  assumes "length s = 9" and "list_all is_digit s" and "hd s \<noteq> CHR ''0''"
  shows "is_base10 s = Inl InvalidFormat"
  using assms by (simp add: is_base10_def list_all_upper_digits)

theorem leading_zero_rule_witness:
  "length ''148975319'' = 9 \<and> list_all is_digit ''148975319'' \<and>
   hd ''148975319'' \<noteq> CHR ''0'' \<and>
   calc_check_digit ''148975319'' = Inr [last ''148975319''] \<and>
   is_base10 ''148975319'' = Inl InvalidFormat"
proof -
  have h1: "length ''148975319'' = 9" by simp
  have h2: "list_all is_digit ''148975319''" by code_simp
  have h3: "hd ''148975319'' \<noteq> CHR ''0''" by simp
  have h4: "calc_check_digit ''148975319'' = Inr [last ''148975319'']" by code_simp
  show ?thesis
    using h1 h2 h3 h4 leading_zero_rule [OF h1 h2 h3] by simp
qed

subsection \<open>The results of validate and is_valid\<close>

text \<open>
  Claim C2. Whenever \<^verbatim>\<open>validate\<close> returns, its result is a string of 9 decimal digits
  that \<^verbatim>\<open>is_base10\<close> accepts: the result of \<^verbatim>\<open>from_base32\<close> on the compacted input
  when that has length 6, and the compacted input itself otherwise.
\<close>

theorem validate_canonical:
  assumes "validate v = Inr s"
  shows "length s = 9 \<and> list_all is_digit s \<and> is_base10 s = Inr True \<and>
    (\<exists>code. compact v = Inr code \<and>
       (if length code = 6 then from_base32 code = Inr s else s = code))"
  using validate_Inr [OF assms] is_base10_Inr [of s True] by simp

theorem validate_canonical_witness:
  "validate (Str ''1gq mgq '') = Inr ''048975318'' \<and>
   length ''048975318'' = 9 \<and> list_all is_digit ''048975318'' \<and>
   is_base10 ''048975318'' = Inr True \<and>
   (\<exists>code. compact (Str ''1gq mgq '') = Inr code \<and>
      (if length code = 6 then from_base32 code = Inr ''048975318''
       else ''048975318'' = code))"
proof -
  have h: "validate (Str ''1gq mgq '') = Inr ''048975318''" by code_simp
  show ?thesis
    using h validate_canonical [OF h] by simp
qed

text \<open>
  Claim C6. \<^verbatim>\<open>is_valid\<close> returns true exactly when \<^verbatim>\<open>validate\<close> returns, and what
  \<^verbatim>\<open>validate\<close> returns is never the empty string; it returns false exactly when
  \<^verbatim>\<open>validate\<close> raises InvalidFormat, InvalidLength or InvalidChecksum; and it always
  returns one of the two, so no exception leaves it.
\<close>

theorem is_valid_iff_validate:
  "(is_valid v = Inr True \<longleftrightarrow> (\<exists>s. validate v = Inr s)) \<and>
   validate v \<noteq> Inr [] \<and>
   (is_valid v = Inr False \<longleftrightarrow>
      (validate v = Inl InvalidFormat \<or> validate v = Inl InvalidLength \<or>
       validate v = Inl InvalidChecksum)) \<and>
   (is_valid v = Inr True \<or> is_valid v = Inr False)"
proof -
  have ne: "validate v \<noteq> Inr []"
    using validate_Inr [of v "[]"] is_base10_Inr [of "[]" True] by auto
  show ?thesis
  proof (cases "validate v")
    case (Inl e)
    then have "is_ValidationError e" by (rule validate_Inl)
    with Inl show ?thesis
      by (cases e) (simp_all add: is_valid_def)
  next
    case (Inr s)
    with ne show ?thesis
      by (simp add: is_valid_def)
  qed
qed

theorem is_valid_iff_validate_witness:
  "validate (Str ''not a code'') = Inl InvalidLength \<and>
   is_valid (Str ''not a code'') = Inr False \<and>
   validate (Str ''048975318'') = Inr ''048975318'' \<and>
   is_valid (Str ''048975318'') = Inr True"
proof -
  have h: "validate (Str ''not a code'') = Inl InvalidLength" by code_simp
  have g: "validate (Str ''048975318'') = Inr ''048975318''" by code_simp
  from h have "is_valid (Str ''not a code'') = Inr False"
    using is_valid_iff_validate [of "Str ''not a code''"] by simp
  moreover from g have "is_valid (Str ''048975318'') = Inr True"
    using is_valid_iff_validate [of "Str ''048975318''"] by simp
  ultimately show ?thesis using h g by simp
qed

subsection \<open>Idempotence of compact\<close>

lemma upper_char_idem: "upper_char (upper_char c) = upper_char c"
proof (cases "97 \<le> ord c \<and> ord c \<le> 122")
  case True
  then have "ord (upper_char c) = ord c - 32"
    by (simp add: upper_char_def ord_chr)
  with True show ?thesis
    by (simp add: upper_char_def [of "upper_char c"])
next
  case False
  then have "upper_char c = c" by (auto simp: upper_char_def)
  then show ?thesis by simp
qed

lemma upper_char_not_blank: "c \<noteq> CHR '' '' \<Longrightarrow> upper_char c \<noteq> CHR '' ''"
proof (cases "97 \<le> ord c \<and> ord c \<le> 122")
  case True
  then have "ord (upper_char c) = ord c - 32"
    by (simp add: upper_char_def ord_chr)
  with True have "ord (upper_char c) \<noteq> ord (CHR '' '')"
    by (simp add: ord_def)
  then show ?thesis by (simp add: ord_inj)
next
  case False
  assume "c \<noteq> CHR '' ''"
  moreover from False have "upper_char c = c" by (auto simp: upper_char_def)
  ultimately show ?thesis by simp
qed

lemma set_strip: "set (strip s) \<subseteq> set s"
proof -
  have "set (strip s) \<subseteq> set (dropWhile is_space s)"
    unfolding strip_def using set_dropWhileD by fastforce
  also have "\<dots> \<subseteq> set s"
    using set_dropWhileD by fastforce
  finally show ?thesis .
qed

lemma last_dropWhile_keep: "dropWhile P xs \<noteq> [] \<Longrightarrow> last (dropWhile P xs) = last xs"
  by (induction xs) (auto split: if_splits)

lemma strip_fixed: "s = [] \<or> (\<not> is_space (hd s) \<and> \<not> is_space (last s)) \<Longrightarrow> strip s = s"
proof (cases "s = []")
  case True
  then show ?thesis by (simp add: strip_def)
next
  case False
  assume "s = [] \<or> (\<not> is_space (hd s) \<and> \<not> is_space (last s))"
  with False have h: "\<not> is_space (hd s)" and l: "\<not> is_space (last s)" by auto
  from False h have a: "dropWhile is_space s = s"
    by (cases s) auto
  from False l have b: "dropWhile is_space (rev s) = rev s"
    by (cases "rev s") (auto simp: hd_rev [symmetric])
  show ?thesis by (simp add: strip_def a b)
qed

lemma strip_ends: "strip s = [] \<or> (\<not> is_space (hd (strip s)) \<and> \<not> is_space (last (strip s)))"
proof (cases "strip s = []")
  case True
  then show ?thesis by simp
next
  case False
  define t where "t = dropWhile is_space s"
  define u where "u = dropWhile is_space (rev t)"
  have su: "strip s = rev u" by (simp add: strip_def t_def u_def)
  with False have une: "u \<noteq> []" by simp
  then have tne: "t \<noteq> []" by (auto simp: u_def)
  from une have hu: "\<not> is_space (hd u)"
    unfolding u_def by (rule hd_dropWhile)
  from une have "last u = last (rev t)"
    unfolding u_def by (rule last_dropWhile_keep)
  also from tne have "\<dots> = hd t" by (simp add: last_rev)
  finally have lu: "last u = hd t" .
  from tne have "\<not> is_space (hd t)"
    unfolding t_def by (rule hd_dropWhile)
  with lu have "\<not> is_space (last u)" by simp
  with hu une show ?thesis
    by (simp add: su hd_rev last_rev)
qed

lemma strip_idem: "strip (strip s) = strip s"
  using strip_ends [of s] by (rule strip_fixed)

lemma clean_no_blank: "CHR '' '' \<notin> set s \<Longrightarrow> clean s '' '' = s"
  by (induction s) (auto simp: clean_def)

lemma compact_no_blank: "CHR '' '' \<notin> set (strip (upper (clean x '' '')))"
proof -
  have "CHR '' '' \<notin> set (upper (clean x '' ''))"
    by (auto simp: upper_def clean_def dest: upper_char_not_blank [THEN notE])
  then show ?thesis using set_strip by blast
qed

lemma upper_fixed: "\<forall>c \<in> set s. upper_char c = c \<Longrightarrow> upper s = s"
  by (simp add: upper_def map_idI)

lemma compact_upper: "upper (strip (upper s)) = strip (upper s)"
proof (rule upper_fixed, rule ballI)
  fix c assume "c \<in> set (strip (upper s))"
  then have "c \<in> set (upper s)" using set_strip by blast
  then obtain d where "c = upper_char d" by (auto simp: upper_def)
  then show "upper_char c = c" by (simp add: upper_char_idem)
qed


text \<open>
  Claim C9. For every string \<open>x\<close>, \<^verbatim>\<open>compact\<close> returns a string \<open>y\<close>, and
  \<^verbatim>\<open>compact\<close> applied to \<open>y\<close> returns \<open>y\<close> again.
\<close>

theorem compact_idempotent: "\<exists>y. compact (Str x) = Inr y \<and> compact (Str y) = Inr y"
proof -
  define y where "y = strip (upper (clean x '' ''))"
  have "clean y '' '' = y"
    unfolding y_def using compact_no_blank by (rule clean_no_blank)
  moreover have "upper y = y"
    unfolding y_def by (rule compact_upper)
  moreover have "strip y = y"
    unfolding y_def by (rule strip_idem)
  ultimately have "compact (Str y) = Inr y" by simp
  moreover have "compact (Str x) = Inr y" by (simp add: y_def)
  ultimately show ?thesis by blast
qed

theorem compact_idempotent_witness:
  "compact (Str '' 04 89x7 '') = Inr ''0489X7'' \<and> compact (Str ''0489X7'') = Inr ''0489X7''"
proof -
  have h: "compact (Str '' 04 89x7 '') = Inr ''0489X7''" by code_simp
  from compact_idempotent [of "'' 04 89x7 ''"] obtain y
    where "compact (Str '' 04 89x7 '') = Inr y" and i: "compact (Str y) = Inr y" by blast
  with h have "y = ''0489X7''" by simp
  with i h show ?thesis by simp
qed

subsection \<open>The check digit against the specification\<close>

lemma upt_8: "[0..<8] = [0, 1, 2, 3, 4, 5, 6, 7]"
  by (simp add: upt_rec)

lemma calc_check_digit_take: "calc_check_digit aic = calc_check_digit (take 8 aic)"
proof -
  have "zip weights (take 8 aic) = zip weights aic"
    by (rule zip_weights_take [symmetric])
  then show ?thesis
    by (simp only: calc_check_digit_def)
qed

lemma spec_check_sum_take: "spec_check_sum (take 8 s) = spec_check_sum s"
  by (simp add: spec_check_sum_def upt_8)

lemma calc_check_digit_8:
  assumes "length s = 8" and "list_all is_digit s"
  shows "calc_check_digit s = Inr (str_int (spec_check_sum s mod 10))"
proof -
  from assms(1) obtain a b c d e f g h where s: "s = [a, b, c, d, e, f, g, h]"
    using len8 by blast
  with assms(2) show ?thesis
    by (simp add: calc_check_digit_digits spec_check_sum_def upt_8 weights_def
                  fold_digits_def spec_weight_def)
qed


text \<open>
  Claim C3. For a string \<open>s\<close> of 8 or 9 decimal digits, \<^verbatim>\<open>calc_check_digit\<close> returns
  \<^verbatim>\<open>str\<close> of the specification's weighted, folded sum of the first eight digits modulo
  10, which is one decimal digit; and any string \<open>t\<close> with the same first eight characters
  gets the same result, so a ninth character has no influence.
\<close>

theorem calc_check_digit_formula:
  assumes "length s = 8 \<or> length s = 9" and "list_all is_digit s" and "take 8 t = take 8 s"
  shows "calc_check_digit s = Inr (str_int (spec_check_sum s mod 10)) \<and>
         str_int (spec_check_sum s mod 10) = [digit_char (spec_check_sum s mod 10)] \<and>
         is_digit (digit_char (spec_check_sum s mod 10)) \<and>
         calc_check_digit t = calc_check_digit s"
proof -
  from assms(1) have l: "length (take 8 s) = 8" by auto
  from assms(2) have d: "list_all is_digit (take 8 s)" by (rule list_all_take)
  have "calc_check_digit s = calc_check_digit (take 8 s)"
    by (rule calc_check_digit_take)
  also have "\<dots> = Inr (str_int (spec_check_sum (take 8 s) mod 10))"
    using l d by (rule calc_check_digit_8)
  finally have 1: "calc_check_digit s = Inr (str_int (spec_check_sum s mod 10))"
    by (simp only: spec_check_sum_take)
  have r: "0 \<le> spec_check_sum s mod 10 \<and> spec_check_sum s mod 10 < 10" by simp
  then have 2: "str_int (spec_check_sum s mod 10) = [digit_char (spec_check_sum s mod 10)]"
    by (simp add: str_int_digit)
  from r have 3: "is_digit (digit_char (spec_check_sum s mod 10))"
    by (simp add: is_digit_char)
  have "calc_check_digit t = calc_check_digit (take 8 t)"
    by (rule calc_check_digit_take)
  also have "\<dots> = calc_check_digit (take 8 s)"
    by (simp only: assms(3))
  also have "\<dots> = calc_check_digit s"
    by (rule calc_check_digit_take [symmetric])
  finally have 4: "calc_check_digit t = calc_check_digit s" .
  from 1 2 3 4 show ?thesis by simp
qed

theorem calc_check_digit_formula_witness:
  "(length ''148975319'' = 8 \<or> length ''148975319'' = 9) \<and>
   list_all is_digit ''148975319'' \<and>
   take 8 ''14897531X'' = take 8 ''148975319'' \<and>
   spec_check_sum ''148975319'' = 39 \<and>
   calc_check_digit ''148975319'' = Inr ''9'' \<and>
   calc_check_digit ''14897531X'' = Inr ''9''"
proof -
  have h1: "length ''148975319'' = 8 \<or> length ''148975319'' = 9" by simp
  have h2: "list_all is_digit ''148975319''" by code_simp
  have h3: "take 8 ''14897531X'' = take 8 ''148975319''" by simp
  have v: "spec_check_sum ''148975319'' = 39" by code_simp
  have w: "str_int 9 = ''9''" by code_simp
  have m: "(39::int) mod 10 = 9" by simp
  note r = calc_check_digit_formula [OF h1 h2 h3]
  from r have c: "calc_check_digit ''148975319'' =
      Inr (str_int (spec_check_sum ''148975319'' mod 10))"
    by (rule conjunct1)
  from r have e: "calc_check_digit ''14897531X'' = calc_check_digit ''148975319''"
    by blast
  from c have c': "calc_check_digit ''148975319'' = Inr ''9''"
    by (simp only: v m w)
  from e c' have e': "calc_check_digit ''14897531X'' = Inr ''9''"
    by (simp only:)
  from h1 h2 h3 v c' e' show ?thesis
    by (intro conjI)
qed

subsection \<open>The conversions\<close>

text \<open>
  Claim C10, as the code has it. For a non-empty string \<open>s\<close> of at most 4300 decimal
  digits whose value is below \<open>32 ^ 6\<close>, which every such string of at most 9 digits is,
  \<^verbatim>\<open>int\<close> reads that value and \<^verbatim>\<open>to_base32\<close> returns a string of exactly 6
  characters, all of them characters of the table.
\<close>

theorem to_base32_six_chars:
  assumes "s \<noteq> []" and "list_all is_digit s" and "length s \<le> 4300"
    and "dec_value s < 32 ^ 6 \<or> length s \<le> 9"
  shows "py_int s = Inr (dec_value s) \<and>
         (\<exists>b. to_base32 s = Inr b \<and> length b = 6 \<and> set b \<subseteq> set AIC_TABLE)"
proof -
  have "dec_value s < 32 ^ 6"
  proof (cases "length s \<le> 9")
    case True
    have "dec_value s < 10 ^ length s" using dec_value_bound [OF assms(2)] by simp
    also have "(10::int) ^ length s \<le> 10 ^ 9" using True by (intro power_increasing) simp_all
    finally show ?thesis by simp
  next
    case False
    with assms(4) show ?thesis by simp
  qed
  with assms(1,2,3) obtain b where "to_base32 s = Inr b" "length b = 6" "set b \<subseteq> set AIC_TABLE"
    using to_base32_digits by blast
  moreover have "py_int s = Inr (dec_value s)" using assms(1,2,3) by (rule py_int_digits)
  ultimately show ?thesis by blast
qed

theorem to_base32_six_chars_witness:
  "''1073741823'' \<noteq> [] \<and> list_all is_digit ''1073741823'' \<and>
   length ''1073741823'' \<le> 4300 \<and>
   (dec_value ''1073741823'' < 32 ^ 6 \<or> length ''1073741823'' \<le> 9) \<and>
   to_base32 ''1073741823'' = Inr ''ZZZZZZ'' \<and> length ''ZZZZZZ'' = 6 \<and>
   set ''ZZZZZZ'' \<subseteq> set AIC_TABLE"
proof -
  have h1: "''1073741823'' \<noteq> []" by simp
  have h2: "list_all is_digit ''1073741823''" by code_simp
  have h3: "length ''1073741823'' \<le> 4300" by simp
  have v: "dec_value ''1073741823'' = 1073741823" by code_simp
  have h4: "dec_value ''1073741823'' < 32 ^ 6 \<or> length ''1073741823'' \<le> 9"
    by (simp add: v)
  have t: "to_base32 ''1073741823'' = Inr ''ZZZZZZ''" by code_simp
  from to_base32_six_chars [OF h1 h2 h3 h4] obtain b where "to_base32 ''1073741823'' = Inr b"
    and s: "set b \<subseteq> set AIC_TABLE" by blast
  with t have "b = ''ZZZZZZ''" by simp
  with s have "set ''ZZZZZZ'' \<subseteq> set AIC_TABLE" by simp
  with h1 h2 h3 h4 t show ?thesis by simp
qed

text \<open>
  The claim C10 as stated, for every digit string whose value is below \<open>32 ^ 6\<close>, fails
  on the string of 4301 zeros: its value is 0, and \<^verbatim>\<open>int\<close> refuses a literal of more
  than 4300 digits, so \<^verbatim>\<open>to_base32\<close> raises ValueError.
\<close>

theorem to_base32_long_counterexample:
  "list_all is_digit (replicate 4301 (CHR ''0'')) \<and>
   dec_value (replicate 4301 (CHR ''0'')) < 32 ^ 6 \<and>
   to_base32 (replicate 4301 (CHR ''0'')) = Inl ValueError"
proof -
  have d: "list_all is_digit (replicate 4301 (CHR ''0''))" by (rule list_all_zeros)
  have "dec_value (replicate 4301 (CHR ''0'') @ []) = dec_value []" by (rule dec_value_zeros)
  then have v: "dec_value (replicate 4301 (CHR ''0'')) < 32 ^ 6" by (simp add: dec_value_Nil)
  have "py_int (replicate 4301 (CHR ''0'')) = Inl ValueError"
    using d by (rule py_int_too_long) simp
  then have "to_base32 (replicate 4301 (CHR ''0'')) = Inl ValueError"
    by (simp add: to_base32_def)
  with d v show ?thesis by simp
qed

text \<open>
  Claim C1. For a string \<open>c\<close> that \<^verbatim>\<open>is_base10\<close> accepts (9 digits, leading zero, right
  check digit), \<^verbatim>\<open>to_base32\<close> returns a 6-character string, and \<^verbatim>\<open>from_base32\<close> of
  that string returns \<open>c\<close>.
\<close>

theorem base32_round_trip:
  assumes "is_base10 c = Inr True"
  shows "\<exists>b. to_base32 c = Inr b \<and> length b = 6 \<and> from_base32 b = Inr c"
proof -
  from is_base10_Inr [OF assms] have l: "length c = 9" and d: "list_all is_digit c" by simp_all
  from l have ne: "c \<noteq> []" by auto
  have "dec_value c < 10 ^ length c" using dec_value_bound [OF d] by simp
  with l have "dec_value c < 32 ^ 6" by simp
  moreover from l have "length c \<le> 4300" by simp
  ultimately obtain b where tb: "to_base32 c = Inr b" and lb: "length b = 6"
    and sb: "set b \<subseteq> set AIC_TABLE" and vb: "base32_value b = dec_value c"
    using ne d to_base32_digits by blast
  from sb have "in_alphabet b" by (rule subset_in_alphabet)
  then have "from_base32 b = Inr (zfill 9 (str_int (base32_value b)))"
    using lb by (rule from_base32_value)
  also have "\<dots> = Inr c" by (simp add: vb zfill9_dec_value [OF l d])
  finally show ?thesis using tb lb by blast
qed
theorem base32_round_trip_witness:
  "is_base10 ''048975318'' = Inr True \<and> to_base32 ''048975318'' = Inr ''1GQMGQ'' \<and>
   from_base32 ''1GQMGQ'' = Inr ''048975318''"
proof -
  have h: "is_base10 ''048975318'' = Inr True" by code_simp
  have t: "to_base32 ''048975318'' = Inr ''1GQMGQ''" by code_simp
  from base32_round_trip [OF h] obtain b where "to_base32 ''048975318'' = Inr b"
    and f: "from_base32 b = Inr ''048975318''" by blast
  with t have "b = ''1GQMGQ''" by simp
  with f have "from_base32 ''1GQMGQ'' = Inr ''048975318''" by simp
  with h t show ?thesis by simp
qed


text \<open>
  Claim C4, as the code has it. For a string \<open>s\<close> of 6 characters that are, uppercased,
  in the table, \<^verbatim>\<open>from_base32\<close> returns the decimal digits of the base32 value of \<open>s\<close>,
  with zeros on the left up to 9 characters. The result has exactly 9 characters when the
  value is below \<open>10 ^ 9\<close>, and 10 characters otherwise: the values from \<open>10 ^ 9\<close> to
  \<open>32 ^ 6 - 1\<close> need ten digits, and \<^verbatim>\<open>zfill\<close> never shortens.
\<close>

theorem from_base32_decimal:
  assumes "length s = 6" and "in_alphabet s"
  shows "from_base32 s = Inr (zfill 9 (str_int (base32_value s))) \<and>
         list_all is_digit (str_int (base32_value s)) \<and>
         dec_value (str_int (base32_value s)) = base32_value s \<and>
         zfill 9 (str_int (base32_value s)) =
           replicate (9 - length (str_int (base32_value s))) (CHR ''0'') @ str_int (base32_value s) \<and>
         length (zfill 9 (str_int (base32_value s))) = (if base32_value s < 10 ^ 9 then 9 else 10)"
proof -
  define v where "v = base32_value s"
  from base32_value_bounds [of s] assms(1) have v0: "0 \<le> v" and v6: "v < 32 ^ 6"
    by (simp_all add: v_def)
  have si: "str_int v = str_digits v" using v0 by (rule str_int_nonneg)
  have 1: "from_base32 s = Inr (zfill 9 (str_int v))"
    unfolding v_def using assms(2,1) by (rule from_base32_value)
  have 2: "list_all is_digit (str_int v)" using v0 by (simp add: si str_digits_digits)
  have 3: "dec_value (str_int v) = v" using v0 by (simp add: si str_digits_value)
  have 4: "zfill 9 (str_int v) = replicate (9 - length (str_int v)) (CHR ''0'') @ str_int v"
    using v0 by (simp add: si zfill_str_digits)
  have 5: "length (zfill 9 (str_int v)) = (if v < 10 ^ 9 then 9 else 10)"
    using zfill9_length [OF v0 v6] by (simp add: si)
  from 1 2 3 4 5 show ?thesis unfolding v_def by blast
qed

theorem from_base32_decimal_witness:
  "length ''1gqmgq'' = 6 \<and> in_alphabet ''1gqmgq'' \<and> base32_value ''1gqmgq'' = 48975318 \<and>
   from_base32 ''1gqmgq'' = Inr ''048975318'' \<and> length ''048975318'' = 9"
proof -
  have h1: "length ''1gqmgq'' = 6" by simp
  have h2: "in_alphabet ''1gqmgq''" by code_simp
  have v: "base32_value ''1gqmgq'' = 48975318" by code_simp
  have z: "zfill 9 (str_int 48975318) = ''048975318''" by code_simp
  from from_base32_decimal [OF h1 h2] have "from_base32 ''1gqmgq'' = Inr (zfill 9 (str_int (base32_value ''1gqmgq'')))"
    by (rule conjunct1)
  then have "from_base32 ''1gqmgq'' = Inr ''048975318''" by (simp only: v z)
  with h1 h2 v show ?thesis by simp
qed


text \<open>
  The claim C4 as stated, that the result always has exactly 9 characters, fails on the
  code \<^verbatim>\<open>ZZZZZZ\<close>, whose value is \<open>32 ^ 6 - 1 = 1073741823\<close>.
\<close>

theorem from_base32_nine_chars_counterexample:
  "length ''ZZZZZZ'' = 6 \<and> in_alphabet ''ZZZZZZ'' \<and>
   from_base32 ''ZZZZZZ'' = Inr ''1073741823'' \<and> length ''1073741823'' = 10"
proof -
  have "in_alphabet ''ZZZZZZ''" by code_simp
  moreover have "from_base32 ''ZZZZZZ'' = Inr ''1073741823''" by code_simp
  ultimately show ?thesis by simp
qed


text \<open>
  Claim C5, as the code has it. For a string \<open>s\<close> of 6 characters that are, uppercased,
  in the table, and whose base32 value is at least 100000000, \<^verbatim>\<open>is_base32\<close> raises:
  InvalidFormat when the value is below 1000000000 (nine digits, the first not zero), and
  InvalidLength when it is 1000000000 or more (ten digits, which the length test of
  \<^verbatim>\<open>is_base10\<close> meets first).
\<close>

theorem is_base32_large_value:
  assumes "length s = 6" and "in_alphabet s" and "100000000 \<le> base32_value s"
  shows "is_base32 s = Inl (if base32_value s < 1000000000 then InvalidFormat else InvalidLength)"
proof -
  define v where "v = base32_value s"
  from base32_value_bounds [of s] assms(1) have v0: "0 \<le> v" and v6: "v < 32 ^ 6"
    by (simp_all add: v_def)
  have si: "str_int v = str_digits v" using v0 by (rule str_int_nonneg)
  have f: "from_base32 s = Inr (zfill 9 (str_digits v))"
    using from_base32_value [OF assms(2,1)] by (simp add: v_def [symmetric] si)
  have b: "is_base32 s = is_base10 (zfill 9 (str_digits v))"
    using assms(1,2) by (simp add: is_base32_def in_alphabet_def [symmetric] f)
  have len: "length (zfill 9 (str_digits v)) = (if v < 10 ^ 9 then 9 else 10)"
    using v0 v6 by (rule zfill9_length)
  show ?thesis
  proof (cases "v < 1000000000")
    case True
    from assms(3) have "10 ^ 8 \<le> v" by (simp add: v_def)
    then have "Suc 8 \<le> length (str_digits v)" by (rule str_digits_length_ge)
    then have z: "zfill 9 (str_digits v) = str_digits v" by (simp add: zfill_def)
    from assms(3) have "1 \<le> v" by (simp add: v_def)
    then have "hd (str_digits v) \<noteq> CHR ''0''" by (rule str_digits_hd)
    moreover have "list_all is_digit (str_digits v)" using v0 by (rule str_digits_digits)
    moreover have "length (str_digits v) = 9" using len True by (simp add: z)
    ultimately have "is_base10 (str_digits v) = Inl InvalidFormat"
      by (intro is_base10_leading)
    with True show ?thesis by (simp add: b z v_def [symmetric])
  next
    case False
    with len have "length (zfill 9 (str_digits v)) \<noteq> 9" by simp
    then have "is_base10 (zfill 9 (str_digits v)) = Inl InvalidLength"
      by (simp add: is_base10_def)
    with False show ?thesis by (simp add: b v_def [symmetric])
  qed
qed

theorem is_base32_large_value_witness:
  "length ''300000'' = 6 \<and> in_alphabet ''300000'' \<and> base32_value ''300000'' = 100663296 \<and>
   is_base32 ''300000'' = Inl InvalidFormat"
proof -
  have h1: "length ''300000'' = 6" by simp
  have h2: "in_alphabet ''300000''" by code_simp
  have v: "base32_value ''300000'' = 100663296" by code_simp
  have h3: "100000000 \<le> base32_value ''300000''" by (simp add: v)
  from is_base32_large_value [OF h1 h2 h3] have "is_base32 ''300000'' = Inl InvalidFormat"
    by (simp add: v)
  with h1 h2 v show ?thesis by simp
qed


text \<open>
  The claim C5 as stated, that the failure is always InvalidFormat, fails on the code
  \<^verbatim>\<open>ZZZZZZ\<close>: its decimal form has ten characters and \<^verbatim>\<open>is_base32\<close> raises
  InvalidLength.
\<close>

theorem is_base32_large_value_counterexample:
  "length ''ZZZZZZ'' = 6 \<and> in_alphabet ''ZZZZZZ'' \<and>
   100000000 \<le> base32_value ''ZZZZZZ'' \<and> is_base32 ''ZZZZZZ'' = Inl InvalidLength"
proof -
  have "in_alphabet ''ZZZZZZ''" by code_simp
  moreover have "base32_value ''ZZZZZZ'' = 1073741823" by code_simp
  moreover have "is_base32 ''ZZZZZZ'' = Inl InvalidLength" by code_simp
  ultimately show ?thesis by simp
qed

end
